theory Spec2Isabelle
  imports Main "HOL-Library.Option_ord" "HOL-Library.AList"
begin

section \<open>JavaScript values\<close>

text \<open>
  The bot reads two JSON documents (\<^verbatim>\<open>events.json\<close> and \<^verbatim>\<open>data/optins.json\<close>) and works on
  the values \<^verbatim>\<open>JSON.parse\<close> gives it. A JavaScript value that came out of a JSON document
  is a \<open>json\<close>; \<^verbatim>\<open>undefined\<close> (the value of a property that is not there) is \<open>None\<close> of
  \<open>json option\<close>. Numbers are the integers; an object is the list of its own properties.
\<close>

datatype json =
    JNull
  | JBool bool
  | JNum int
  | JStr string
  | JArr "json list"
  | JObj "(string \<times> json) list"

datatype error = TypeError | SyntaxError | ENOENT | ENOTDIR | EACCES | DeliveryError

text \<open>
  \<^verbatim>\<open>v.name\<close> for the property names this program reads (\<^verbatim>\<open>events\<close>, \<^verbatim>\<open>startISO\<close>,
  \<^verbatim>\<open>dmOptInUserIds\<close>): reading a property of \<^verbatim>\<open>null\<close> throws a TypeError, an object gives
  its own property or \<^verbatim>\<open>undefined\<close>, and numbers, booleans, strings and arrays have no
  property of these names.
\<close>

fun getProp :: "json \<Rightarrow> string \<Rightarrow> error + json option" where
  "getProp JNull k = Inl TypeError"
| "getProp (JObj kvs) k = Inr (map_of kvs k)"
| "getProp v k = Inr None"

text \<open>Truthiness, as \<^verbatim>\<open>!x\<close> and \<^verbatim>\<open>x || y\<close> test it.\<close>

fun truthy :: "json option \<Rightarrow> bool" where
  "truthy None = False"
| "truthy (Some JNull) = False"
| "truthy (Some (JBool b)) = b"
| "truthy (Some (JNum n)) = (n \<noteq> 0)"
| "truthy (Some (JStr s)) = (s \<noteq> [])"
| "truthy (Some (JArr xs)) = True"
| "truthy (Some (JObj kvs)) = True"

text \<open>Decimal numerals, for array indices as property names and for numbers in strings.\<close>

fun decimal :: "nat \<Rightarrow> string" where
  "decimal n =
     (if n < 10 then [''0123456789'' ! n]
      else decimal (n div 10) @ [''0123456789'' ! (n mod 10)])"

declare decimal.simps [simp del]

fun join_comma :: "string list \<Rightarrow> string" where
  "join_comma [] = []"
| "join_comma [s] = s"
| "join_comma (s # t # ss) = s @ '','' @ join_comma (t # ss)"

text \<open>
  The string a value becomes inside a template literal \<^verbatim>\<open>`${v}`\<close>: an array joins its
  elements with commas (\<^verbatim>\<open>null\<close> elements as the empty string), an object is
  \<^verbatim>\<open>[object Object]\<close>. The conversion is used on the \<^verbatim>\<open>id\<close> of an event, and is given
  here for ids as a catalog has them, strings and integers in plain decimal: the exponent
  form of an integer from \<open>10\<^sup>2\<^sup>1\<close> on, and an object with a \<^verbatim>\<open>toString\<close> property of
  its own, on which the conversion throws, are not covered.
\<close>

fun ToString :: "json \<Rightarrow> string" where
  "ToString JNull = ''null''"
| "ToString (JBool b) = (if b then ''true'' else ''false'')"
| "ToString (JNum n) = (if n < 0 then ''-'' @ decimal (nat (- n)) else decimal (nat n))"
| "ToString (JStr s) = s"
| "ToString (JArr xs) = join_comma (map (\<lambda>x. if x = JNull then [] else ToString x) xs)"
| "ToString (JObj kvs) = ''[object Object]''"

definition template :: "json option \<Rightarrow> string" where
  "template v = (case v of None \<Rightarrow> ''undefined'' | Some x \<Rightarrow> ToString x)"

text \<open>
  The own enumerable properties that an object spread \<^verbatim>\<open>{...e}\<close> copies: those of an
  object, the indexed elements of an array or characters of a string, none otherwise.
\<close>

fun spread :: "json \<Rightarrow> (string \<times> json) list" where
  "spread (JObj kvs) = kvs"
| "spread (JArr xs) = zip (map decimal [0..<length xs]) xs"
| "spread (JStr s) = zip (map decimal [0..<length s]) (map (\<lambda>c. JStr [c]) s)"
| "spread v = []"

section \<open>File storage\<close>

text \<open>
  The text of a file is represented by what reading it and \<^verbatim>\<open>JSON.parse\<close> make of it:
  \<open>Malformed\<close> when it cannot be read as a file or the parser rejects it, \<open>Json v\<close> when
  the parser yields \<open>v\<close> (so writing \<^verbatim>\<open>JSON.stringify(v)\<close> stores \<open>Json v\<close>). A file that
  is not there is \<open>None\<close>.

  \<open>dataDir\<close> is what is found at \<^verbatim>\<open>DATA_DIR\<close>: nothing, a directory, or a plain file.
  \<open>optinsFile\<close> is the file \<^verbatim>\<open>optins.json\<close> of that directory; it is seen only when
  \<open>dataDir\<close> is a directory. \<open>refuses_writes\<close> says that \<^verbatim>\<open>mkdirSync\<close> and
  \<^verbatim>\<open>writeFileSync\<close> throw (no permission, a read-only or full file system, a directory in
  the place of the file).
\<close>

datatype content = Malformed | Json json

datatype node = Absent | Dir | Plain

record fs =
  dataDir :: node
  optinsFile :: "content option"
  eventsFile :: "content option"
  refuses_writes :: bool

definition readFileSync :: "content option \<Rightarrow> error + content" where
  "readFileSync f = (case f of None \<Rightarrow> Inl ENOENT | Some c \<Rightarrow> Inr c)"

definition JSON_parse :: "content \<Rightarrow> error + json" where
  "JSON_parse c = (case c of Malformed \<Rightarrow> Inl SyntaxError | Json v \<Rightarrow> Inr v)"

text \<open>
  \<^verbatim>\<open>readEvents\<close>: everything inside its \<^verbatim>\<open>try\<close> that throws ends in the \<^verbatim>\<open>catch\<close>, which
  returns the empty array.
\<close>

definition readEvents :: "fs \<Rightarrow> json list" where
  "readEvents files =
     (case readFileSync (eventsFile files) of
        Inl _ \<Rightarrow> []
      | Inr raw \<Rightarrow>
          (case JSON_parse raw of
             Inl _ \<Rightarrow> []
           | Inr parsed \<Rightarrow>
               (case getProp parsed ''events'' of
                  Inl _ \<Rightarrow> []
                | Inr (Some (JArr xs)) \<Rightarrow> xs
                | Inr _ \<Rightarrow> [])))"

section \<open>The next event\<close>

text \<open>
  \<^verbatim>\<open>DateTime.fromISO(x, { zone: TZ })\<close> belongs to the luxon library: it is the parameter
  \<open>fromISO\<close>. It gives the instant in epoch milliseconds, or \<open>None\<close> for an invalid
  \<^verbatim>\<open>DateTime\<close>, or it throws (it turns its argument into a string, which throws a
  TypeError for an object whose own \<^verbatim>\<open>toString\<close> is not a function). An \<open>entry\<close> is the
  object \<^verbatim>\<open>{ ...e, dt }\<close>: the properties copied from the event and the parsed start (which
  shadows a copied property of that name).
\<close>

record entry =
  props :: "(string \<times> json) list"
  dt :: "int option"

text \<open>
  \<^verbatim>\<open>events.map(...)\<close> goes through the entries in order and stops at the first one on
  which reading \<^verbatim>\<open>e.startISO\<close> or parsing it throws.
\<close>

fun map_entries ::
    "(json option \<Rightarrow> error + int option) \<Rightarrow> json list \<Rightarrow> error + entry list" where
  "map_entries fromISO [] = Inr []"
| "map_entries fromISO (e # es) =
     (case getProp e ''startISO'' of
        Inl err \<Rightarrow> Inl err
      | Inr s \<Rightarrow>
          (case fromISO s of
             Inl err \<Rightarrow> Inl err
           | Inr parsed \<Rightarrow>
               (case map_entries fromISO es of
                  Inl err \<Rightarrow> Inl err
                | Inr rest \<Rightarrow> Inr (\<lparr>props = spread e, dt = parsed\<rparr> # rest))))"

text \<open>
  \<^verbatim>\<open>e.dt.isValid && e.dt > now\<close> keeps the valid instants after \<open>now\<close>; the sort by
  \<^verbatim>\<open>toMillis()\<close> is stable, and on valid instants the order of \<open>int option\<close> is the order
  of the milliseconds. \<^verbatim>\<open>upcoming[0] || null\<close> is the first entry or none.
\<close>

definition getNextEvent ::
    "(json option \<Rightarrow> error + int option) \<Rightarrow> int \<Rightarrow> json list \<Rightarrow> error + entry option" where
  "getNextEvent fromISO now events =
     (case map_entries fromISO events of
        Inl err \<Rightarrow> Inl err
      | Inr mapped \<Rightarrow>
          (let upcoming =
                 sort_key dt
                   (filter (\<lambda>e. case dt e of None \<Rightarrow> False | Some t \<Rightarrow> now < t) mapped)
           in Inr (case upcoming of [] \<Rightarrow> None | e # _ \<Rightarrow> Some e)))"

text \<open>
  Reading and parsing the start of one catalog entry, as the selection does it: an error
  thrown, or the parsed start.
\<close>

definition start_of :: "(json option \<Rightarrow> error + int option) \<Rightarrow> json \<Rightarrow> error + int option" where
  "start_of fromISO e = (case getProp e ''startISO'' of Inl err \<Rightarrow> Inl err | Inr s \<Rightarrow> fromISO s)"

section \<open>The opt-in store\<close>

definition default_optins :: json where
  "default_optins = JObj [(''dmOptInUserIds'', JArr [])]"

text \<open>What is at \<^verbatim>\<open>OPTINS_PATH\<close>.\<close>

definition optinsPath :: "fs \<Rightarrow> content option" where
  "optinsPath fl = (if dataDir fl = Dir then optinsFile fl else None)"

text \<open>\<^verbatim>\<open>fs.mkdirSync(DATA_DIR)\<close>, called when nothing is there: the new directory is empty.\<close>

definition mkdirSync :: "fs \<Rightarrow> error + fs" where
  "mkdirSync fl =
     (if refuses_writes fl then Inl EACCES else Inr (fl\<lparr>dataDir := Dir, optinsFile := None\<rparr>))"

text \<open>\<^verbatim>\<open>fs.writeFileSync(OPTINS_PATH, text, "utf8")\<close>\<close>

definition writeFileSync :: "content \<Rightarrow> fs \<Rightarrow> error + fs" where
  "writeFileSync text fl =
     (case dataDir fl of
        Absent \<Rightarrow> Inl ENOENT
      | Plain \<Rightarrow> Inl ENOTDIR
      | Dir \<Rightarrow> if refuses_writes fl then Inl EACCES else Inr (fl\<lparr>optinsFile := Some text\<rparr>))"

definition ensureDataFiles :: "fs \<Rightarrow> error + fs" where
  "ensureDataFiles fl =
     (case (if dataDir fl = Absent then mkdirSync fl else Inr fl) of
        Inl err \<Rightarrow> Inl err
      | Inr made \<Rightarrow>
          if optinsPath made = None then writeFileSync (Json default_optins) made
          else Inr made)"

text \<open>
  \<^verbatim>\<open>readOptins\<close> calls \<^verbatim>\<open>ensureDataFiles\<close> before its \<^verbatim>\<open>try\<close>, so what that throws is
  thrown on; reading and parsing are inside the \<^verbatim>\<open>try\<close>. The result is the files as
  \<^verbatim>\<open>ensureDataFiles\<close> left them and the document read.
\<close>

definition readOptins :: "fs \<Rightarrow> error + fs \<times> json" where
  "readOptins fl =
     (case ensureDataFiles fl of
        Inl err \<Rightarrow> Inl err
      | Inr ensured \<Rightarrow>
          Inr (ensured,
               case readFileSync (optinsPath ensured) of
                 Inl _ \<Rightarrow> default_optins
               | Inr raw \<Rightarrow> (case JSON_parse raw of Inl _ \<Rightarrow> default_optins | Inr v \<Rightarrow> v)))"

definition writeOptins :: "json \<Rightarrow> fs \<Rightarrow> error + fs" where
  "writeOptins data fl =
     (case ensureDataFiles fl of
        Inl err \<Rightarrow> Inl err
      | Inr ensured \<Rightarrow> writeFileSync (Json data) ensured)"

text \<open>\<^verbatim>\<open>v || []\<close>\<close>

definition or_empty :: "json option \<Rightarrow> json" where
  "or_empty v = (case v of None \<Rightarrow> JArr [] | Some x \<Rightarrow> if truthy (Some x) then x else JArr [])"

text \<open>
  What \<^verbatim>\<open>for (const x of v)\<close> and \<^verbatim>\<open>new Set(v)\<close> run through: the elements of an array,
  the characters of a string; any other value is not iterable.
\<close>

fun iterate :: "json \<Rightarrow> error + json list" where
  "iterate (JArr xs) = Inr xs"
| "iterate (JStr s) = Inr (map (\<lambda>c. JStr [c]) s)"
| "iterate v = Inl TypeError"

text \<open>\<^verbatim>\<open>optins.dmOptInUserIds || []\<close>, iterated: the recipients as both readers take them.\<close>

definition optedIn :: "json \<Rightarrow> error + json list" where
  "optedIn optins =
     (case getProp optins ''dmOptInUserIds'' of
        Inl err \<Rightarrow> Inl err
      | Inr v \<Rightarrow> iterate (or_empty v))"

text \<open>
  Listing the opted-in users, as \<^verbatim>\<open>runReminderCheck\<close> does before its loop:
  \<^verbatim>\<open>readOptins()\<close>, then the list taken from the document.
\<close>

definition listOptedIn :: "fs \<Rightarrow> error + fs \<times> json list" where
  "listOptedIn fl =
     (case readOptins fl of
        Inl err \<Rightarrow> Inl err
      | Inr (ensured, optins) \<Rightarrow>
          (case optedIn optins of
             Inl err \<Rightarrow> Inl err
           | Inr ids \<Rightarrow> Inr (ensured, ids)))"

text \<open>
  A \<^verbatim>\<open>Set\<close> keeps its elements in insertion order and compares them by SameValueZero:
  numbers, strings, booleans and \<^verbatim>\<open>null\<close> by value, while the arrays and objects of a parsed
  document are each their own object and equal to no other element.
\<close>

fun primitive :: "json \<Rightarrow> bool" where
  "primitive (JArr xs) = False"
| "primitive (JObj kvs) = False"
| "primitive v = True"

definition set_add :: "json list \<Rightarrow> json \<Rightarrow> json list" where
  "set_add members v = (if primitive v \<and> v \<in> set members then members else members @ [v])"

definition new_Set :: "json list \<Rightarrow> json list" where
  "new_Set xs = foldl set_add [] xs"

text \<open>
  \<^verbatim>\<open>d.name = v\<close> as \<^verbatim>\<open>JSON.stringify(d)\<close> sees it afterwards: an object gets or replaces the
  property; the assignment to a number, boolean or string is dropped (the file is not in
  strict mode), and a named property of an array is not written out.
\<close>

fun setProp :: "json \<Rightarrow> string \<Rightarrow> json \<Rightarrow> json" where
  "setProp (JObj kvs) k v = JObj (AList.update k v kvs)"
| "setProp d k v = d"

text \<open>\<^verbatim>\<open>v.filter(p)\<close>: only an array has the method.\<close>

fun array_filter :: "(json \<Rightarrow> bool) \<Rightarrow> json \<Rightarrow> error + json list" where
  "array_filter p (JArr xs) = Inr (filter p xs)"
| "array_filter p v = Inl TypeError"

section \<open>The command handler\<close>

text \<open>
  What the handler of \<^verbatim>\<open>interactionCreate\<close> meets: whether the interaction is a chat
  input command, the name of the command, the id of the user, the reading of the clock in
  \<^verbatim>\<open>getNextEvent\<close>, the files, and whether building the reply and
  \<^verbatim>\<open>interaction.reply\<close> go through.
\<close>

record interaction =
  isChatInputCommand :: bool
  commandName :: string
  user_id :: string
  asked_at :: int
  found :: fs
  reply_ok :: bool

datatype reply = NoUpcomingEvents | NextEvent entry | OptedIn | OptedOut

text \<open>
  What the handler leaves: the files, the reply that went out, and the error with which
  the returned promise rejects, if any.
\<close>

record handled =
  files_left :: fs
  replied :: "reply option"
  failed :: "error option"

definition reply_with :: "interaction \<Rightarrow> fs \<Rightarrow> reply \<Rightarrow> handled" where
  "reply_with i fl r =
     (if reply_ok i then \<lparr>files_left = fl, replied = Some r, failed = None\<rparr>
      else \<lparr>files_left = fl, replied = None, failed = Some DeliveryError\<rparr>)"

text \<open>
  The handler reads the catalog and selects the next event before it looks at the name of
  the command; what \<^verbatim>\<open>getNextEvent\<close> throws ends the handler there, for every command.
  No statement of the handler is inside a \<^verbatim>\<open>try\<close>.
\<close>

definition interactionCreate ::
    "(json option \<Rightarrow> error + int option) \<Rightarrow> interaction \<Rightarrow> handled" where
  "interactionCreate fromISO i =
     (let quiet = \<lparr>files_left = found i, replied = None, failed = None\<rparr>
      in if \<not> isChatInputCommand i then quiet
         else
           case getNextEvent fromISO (asked_at i) (readEvents (found i)) of
             Inl err \<Rightarrow> quiet\<lparr>failed := Some err\<rparr>
           | Inr next \<Rightarrow>
               if commandName i = ''nextevent'' then
                 (case next of
                    None \<Rightarrow> reply_with i (found i) NoUpcomingEvents
                  | Some n \<Rightarrow> reply_with i (found i) (NextEvent n))
               else if commandName i = ''remindme'' then
                 (case readOptins (found i) of
                    Inl err \<Rightarrow> quiet\<lparr>failed := Some err\<rparr>
                  | Inr (ensured, optins) \<Rightarrow>
                      (case optedIn optins of
                         Inl err \<Rightarrow> quiet\<lparr>files_left := ensured, failed := Some err\<rparr>
                       | Inr xs \<Rightarrow>
                           (let members = set_add (new_Set xs) (JStr (user_id i))
                            in case writeOptins
                                      (setProp optins ''dmOptInUserIds'' (JArr members)) ensured of
                                 Inl err \<Rightarrow> quiet\<lparr>files_left := ensured, failed := Some err\<rparr>
                               | Inr written \<Rightarrow> reply_with i written OptedIn)))
               else if commandName i = ''remindoff'' then
                 (case readOptins (found i) of
                    Inl err \<Rightarrow> quiet\<lparr>failed := Some err\<rparr>
                  | Inr (ensured, optins) \<Rightarrow>
                      (case getProp optins ''dmOptInUserIds'' of
                         Inl err \<Rightarrow> quiet\<lparr>files_left := ensured, failed := Some err\<rparr>
                       | Inr v \<Rightarrow>
                           (case array_filter (\<lambda>id. id \<noteq> JStr (user_id i)) (or_empty v) of
                              Inl err \<Rightarrow> quiet\<lparr>files_left := ensured, failed := Some err\<rparr>
                            | Inr kept \<Rightarrow>
                                (case writeOptins
                                        (setProp optins ''dmOptInUserIds'' (JArr kept)) ensured of
                                   Inl err \<Rightarrow> quiet\<lparr>files_left := ensured, failed := Some err\<rparr>
                                 | Inr written \<Rightarrow> reply_with i written OptedOut))))
               else quiet)"

section \<open>The reminder engine\<close>

text \<open>
  The one reminder window of \<^verbatim>\<open>runReminderCheck\<close>. The texts of the messages are not
  modelled: a message is identified by the window and the event it is rendered from.
\<close>

record window =
  label :: string
  minutes :: int

definition window24h :: window where
  "window24h = \<lparr>label = ''24h'', minutes = 24 * 60\<rparr>"

text \<open>
  What leaves the process: the channel announcement, the fetch of a user, the direct
  message, a line on the console. The flag says whether the call went through.
\<close>

datatype action =
    ChannelSend window entry bool
  | UsersFetch json bool
  | UserSend json window entry bool
  | ConsoleLog string

text \<open>
  What one tick of the scheduler meets: the two readings of the clock (in
  \<^verbatim>\<open>getNextEvent\<close>, and in \<^verbatim>\<open>runReminderCheck\<close> after the channel was fetched), the files, and
  how the calls to the chat platform end: whether \<^verbatim>\<open>client.channels.fetch\<close> gives a
  channel, whether building the embed and \<^verbatim>\<open>channel.send\<close> go through, and for the \<open>i\<close>-th
  recipient whether \<^verbatim>\<open>client.users.fetch\<close> gives a user and whether \<^verbatim>\<open>user.send\<close> goes
  through.
\<close>

record tick =
  now_select :: int
  now_check :: int
  files :: fs
  channel_found :: bool
  announce_ok :: bool
  user_found :: "nat \<Rightarrow> bool"
  dm_ok :: "nat \<Rightarrow> bool"

text \<open>
  What a tick leaves: the set \<^verbatim>\<open>reminderState\<close>, the files, the calls made in order, and
  the error with which the returned promise rejects, if any.
\<close>

record outcome =
  fired :: "string set"
  files_after :: fs
  sent :: "action list"
  thrown :: "error option"

text \<open>
  \<^verbatim>\<open>Math.round(start.diff(now, "minutes").minutes)\<close> on a difference of \<open>ms\<close> milliseconds:
  the nearest whole minute, a half going up.
\<close>

definition round_minutes :: "int \<Rightarrow> int" where
  "round_minutes ms = (2 * ms + 60000) div 120000"

text \<open>An invalid start gives \<^verbatim>\<open>NaN\<close>, here \<open>None\<close>, and every comparison with it is false.\<close>

definition minutesUntil :: "int option \<Rightarrow> int \<Rightarrow> int option" where
  "minutesUntil start now = (case start of None \<Rightarrow> None | Some t \<Rightarrow> Some (round_minutes (t - now)))"

definition shouldTrigger :: "int option \<Rightarrow> window \<Rightarrow> bool" where
  "shouldTrigger mins w = (case mins of None \<Rightarrow> False | Some m \<Rightarrow> \<bar>m - minutes w\<bar> \<le> 1)"

definition key_of :: "entry \<Rightarrow> window \<Rightarrow> string" where
  "key_of next w = template (map_of (props next) ''id'') @ '':'' @ label w"

text \<open>The loop over the opted-in users; \<open>i\<close> counts the iterations.\<close>

fun dm_loop :: "tick \<Rightarrow> window \<Rightarrow> entry \<Rightarrow> nat \<Rightarrow> json list \<Rightarrow> action list" where
  "dm_loop t w next i [] = []"
| "dm_loop t w next i (userId # rest) =
     (if \<not> user_found t i then UsersFetch userId False # dm_loop t w next (Suc i) rest
      else UsersFetch userId True # UserSend userId w next (dm_ok t i)
             # dm_loop t w next (Suc i) rest)"

definition runReminderCheck ::
    "(json option \<Rightarrow> error + int option) \<Rightarrow> string option \<Rightarrow> tick \<Rightarrow> string set \<Rightarrow> outcome"
    where
  "runReminderCheck fromISO EVENT_CHANNEL_ID t reminderState =
     (let idle = \<lparr>fired = reminderState, files_after = files t, sent = [], thrown = None\<rparr>
      in case getNextEvent fromISO (now_select t) (readEvents (files t)) of
           Inl err \<Rightarrow> idle\<lparr>thrown := Some err\<rparr>
         | Inr None \<Rightarrow> idle
         | Inr (Some next) \<Rightarrow>
             if EVENT_CHANNEL_ID = None \<or> EVENT_CHANNEL_ID = Some [] then idle
             else if \<not> channel_found t then idle
             else
               (case fromISO (map_of (props next) ''startISO'') of
                  Inl err \<Rightarrow> idle\<lparr>thrown := Some err\<rparr>
                | Inr start \<Rightarrow>
                    (let mins = minutesUntil start (now_check t);
                         key = key_of next window24h
                     in if shouldTrigger mins window24h \<and> key \<notin> reminderState then
                          (let marked = idle\<lparr>fired := insert key reminderState\<rparr>
                           in if \<not> announce_ok t then
                                marked\<lparr>sent := [ChannelSend window24h next False],
                                       thrown := Some DeliveryError\<rparr>
                              else
                                (case readOptins (files t) of
                                   Inl err \<Rightarrow>
                                     marked\<lparr>sent := [ChannelSend window24h next True],
                                            thrown := Some err\<rparr>
                                 | Inr (ensured, optins) \<Rightarrow>
                                     (let posted =
                                            marked\<lparr>files_after := ensured,
                                                   sent := [ChannelSend window24h next True]\<rparr>
                                      in case optedIn optins of
                                           Inl err \<Rightarrow> posted\<lparr>thrown := Some err\<rparr>
                                         | Inr ids \<Rightarrow>
                                             posted\<lparr>sent := ChannelSend window24h next True
                                                        # dm_loop t window24h next 0 ids\<rparr>)))
                        else idle)))"

text \<open>
  The scheduler calls \<^verbatim>\<open>runReminderCheck\<close> once a minute; \<^verbatim>\<open>reminderState\<close> is the only thing
  a tick hands to the next one. The ticks are taken one after the other: the test of
  \<^verbatim>\<open>reminderState.has(key)\<close> and the \<^verbatim>\<open>add\<close> that follows have no \<^verbatim>\<open>await\<close> between them.
  A tick that ends in an error leaves its marks in the set and the scheduler goes on; a
  process that stops there has run a prefix of the ticks. The outcomes of the ticks, in
  order:
\<close>

fun cron ::
    "(json option \<Rightarrow> error + int option) \<Rightarrow> string option \<Rightarrow> string set \<Rightarrow> tick list \<Rightarrow>
       outcome list" where
  "cron fromISO EVENT_CHANNEL_ID reminderState [] = []"
| "cron fromISO EVENT_CHANNEL_ID reminderState (t # ts) =
     (let r = runReminderCheck fromISO EVENT_CHANNEL_ID t reminderState
      in r # cron fromISO EVENT_CHANNEL_ID (fired r) ts)"

text \<open>The keys of the reminders a list of calls announces in the channel.\<close>

fun announced :: "action list \<Rightarrow> string list" where
  "announced [] = []"
| "announced (ChannelSend w next ok # rest) = key_of next w # announced rest"
| "announced (a # rest) = announced rest"

text \<open>The reminder a call belongs to: the key of its event and window.\<close>

fun reminder_key :: "action \<Rightarrow> string option" where
  "reminder_key (ChannelSend w next ok) = Some (key_of next w)"
| "reminder_key (UserSend u w next ok) = Some (key_of next w)"
| "reminder_key a = None"

text \<open>
  Two conditions on a tick, named for the statements below. \<open>reaches\<close>: the tick gets as
  far as the threshold check, with \<open>n\<close> as the next event (an event is selected, the
  channel is configured and could be fetched). \<open>due\<close>: the threshold check of the tick
  succeeds for \<open>n\<close>.
\<close>

definition reaches ::
    "(json option \<Rightarrow> error + int option) \<Rightarrow> string option \<Rightarrow> tick \<Rightarrow> entry \<Rightarrow> bool" where
  "reaches fromISO ch t n \<longleftrightarrow>
     getNextEvent fromISO (now_select t) (readEvents (files t)) = Inr (Some n) \<and>
     ch \<noteq> None \<and> ch \<noteq> Some [] \<and> channel_found t"

definition due :: "(json option \<Rightarrow> error + int option) \<Rightarrow> tick \<Rightarrow> entry \<Rightarrow> bool" where
  "due fromISO t n \<longleftrightarrow>
     (case fromISO (map_of (props n) ''startISO'') of
        Inl _ \<Rightarrow> False
      | Inr start \<Rightarrow> shouldTrigger (minutesUntil start (now_check t)) window24h)"

text \<open>
  Read off a list of calls: the users a fetch was made for, the users a direct message
  got through to, and the lines written to the console.
\<close>

fun attempted :: "action list \<Rightarrow> json list" where
  "attempted [] = []"
| "attempted (UsersFetch u ok # rest) = u # attempted rest"
| "attempted (a # rest) = attempted rest"




section \<open>A sample installation\<close>

text \<open>
  Concrete inputs on which the theorems below are exercised: a catalog with one event and
  two opted-in users. \<open>sample_fromISO\<close> stands in for the date parser in the zone
  \<^verbatim>\<open>America/New_York\<close> on the values that occur below: the two dates are valid (14:00
  on 7 February 2025 there is 19:00 UTC), \<^verbatim>\<open>undefined\<close>, \<^verbatim>\<open>null\<close> and the other texts used
  are invalid, and an object with a \<^verbatim>\<open>toString\<close> property of its own makes the parser
  throw.
\<close>

definition sample_fromISO :: "json option \<Rightarrow> error + int option" where
  "sample_fromISO v =
     (case v of
        Some (JStr s) \<Rightarrow>
          Inr (if s = ''2025-02-07T14:00'' then Some 1738954800000
               else if s = ''2025-02-21T20:00'' then Some 1740186000000
               else None)
      | Some (JObj kvs) \<Rightarrow> (if map_of kvs ''toString'' = None then Inr None else Inl TypeError)
      | _ \<Rightarrow> Inr None)"

definition sample_event :: json where
  "sample_event = JObj [(''id'', JStr ''foss''), (''startISO'', JStr ''2025-02-07T14:00'')]"

definition sample_files :: fs where
  "sample_files =
     \<lparr>dataDir = Dir,
      optinsFile = Some (Json (JObj [(''dmOptInUserIds'', JArr [JStr ''u1'', JStr ''u2''])])),
      eventsFile = Some (Json (JObj [(''events'', JArr [sample_event])])),
      refuses_writes = False\<rparr>"

text \<open>A tick exactly 24 hours before the sample event; the first recipient has closed DMs.\<close>

definition sample_tick :: tick where
  "sample_tick =
     \<lparr>now_select = 1738868400000, now_check = 1738868400000, files = sample_files,
      channel_found = True, announce_ok = True,
      user_found = (\<lambda>i. True), dm_ok = (\<lambda>i. i \<noteq> 0)\<rparr>"

definition sample_entry :: entry where
  "sample_entry =
     \<lparr>props = [(''id'', JStr ''foss''), (''startISO'', JStr ''2025-02-07T14:00'')],
      dt = Some 1738954800000\<rparr>"

text \<open>A command of user \<^verbatim>\<open>u9\<close> on the sample files, a day before the sample event.\<close>

definition sample_command :: "string \<Rightarrow> interaction" where
  "sample_command name =
     \<lparr>isChatInputCommand = True, commandName = name, user_id = ''u9'',
      asked_at = 1738868400000, found = sample_files, reply_ok = True\<rparr>"

section \<open>Selecting the next event\<close>

lemma map_entries_ok:
  "\<forall>e\<in>set events. \<exists>d. start_of fromISO e = Inr d \<Longrightarrow>
   map_entries fromISO events =
     Inr (map (\<lambda>e. \<lparr>props = spread e,
                     dt = (case start_of fromISO e of Inl _ \<Rightarrow> None | Inr d \<Rightarrow> d)\<rparr>) events)"
proof (induction events)
  case Nil
  then show ?case by simp
next
  case (Cons e es)
  then obtain d where d: "start_of fromISO e = Inr d" by auto
  then obtain s where s: "getProp e ''startISO'' = Inr s" and p: "fromISO s = Inr d"
    by (cases "getProp e ''startISO''") (simp_all add: start_of_def)
  from Cons have "map_entries fromISO es =
     Inr (map (\<lambda>e. \<lparr>props = spread e,
                     dt = (case start_of fromISO e of Inl _ \<Rightarrow> None | Inr d \<Rightarrow> d)\<rparr>) es)"
    by simp
  with s p d show ?case by simp
qed

lemma map_entries_throws:
  "\<exists>e\<in>set events. \<exists>err. start_of fromISO e = Inl err \<Longrightarrow>
   \<exists>err. map_entries fromISO events = Inl err"
proof (induction events)
  case Nil
  then show ?case by simp
next
  case (Cons e es)
  show ?case
  proof (cases "start_of fromISO e")
    case (Inl err)
    then show ?thesis
      by (cases "getProp e ''startISO''") (simp_all add: start_of_def)
  next
    case (Inr d)
    then obtain s where s: "getProp e ''startISO'' = Inr s" and p: "fromISO s = Inr d"
      by (cases "getProp e ''startISO''") (simp_all add: start_of_def)
    from Inr Cons.prems have "\<exists>e\<in>set es. \<exists>err. start_of fromISO e = Inl err" by auto
    from Cons.IH [OF this] obtain err where "map_entries fromISO es = Inl err" by blast
    with s p show ?thesis by simp
  qed
qed

text \<open>The selection throws exactly when reading or parsing the start of some entry throws.\<close>

lemma getNextEvent_throws_iff:
  "(\<exists>err. getNextEvent fromISO now events = Inl err) \<longleftrightarrow>
   (\<exists>e\<in>set events. \<exists>err. start_of fromISO e = Inl err)"
proof (cases "\<exists>e\<in>set events. \<exists>err. start_of fromISO e = Inl err")
  case True
  from map_entries_throws [OF this] obtain err where "map_entries fromISO events = Inl err"
    by blast
  with True show ?thesis by (simp add: getNextEvent_def)
next
  case False
  then have "\<forall>e\<in>set events. \<exists>d. start_of fromISO e = Inr d"
    by (metis sum.exhaust)
  from map_entries_ok [OF this] False show ?thesis
    by (simp add: getNextEvent_def Let_def)
qed

lemma sort_key_head_least:
  fixes f :: "'a \<Rightarrow> 'k::linorder"
  assumes "sort_key f xs = y # ys"
  shows "y \<in> set xs \<and> (\<forall>x\<in>set xs. f y \<le> f x)"
proof -
  have "set (sort_key f xs) = set xs" by simp
  with assms have mem: "set xs = insert y (set ys)" by simp
  have "sorted (map f (sort_key f xs))" by (rule sorted_sort_key)
  with assms have "\<forall>x\<in>set ys. f y \<le> f x" by simp
  with mem show ?thesis by auto
qed

lemma getNextEvent_selects:
  assumes ok: "\<forall>e\<in>set events. \<exists>d. start_of fromISO e = Inr d"
  shows "\<exists>r. getNextEvent fromISO now events = Inr r \<and>
    (case r of
       None \<Rightarrow> \<forall>e\<in>set events. \<forall>t. start_of fromISO e = Inr (Some t) \<longrightarrow> t \<le> now
     | Some n \<Rightarrow> \<exists>t. dt n = Some t \<and> now < t \<and>
          (\<exists>e\<in>set events. props n = spread e \<and> start_of fromISO e = Inr (Some t)) \<and>
          (\<forall>e\<in>set events. \<forall>t'. start_of fromISO e = Inr (Some t') \<longrightarrow> now < t' \<longrightarrow> t \<le> t'))"
proof -
  define mk where "mk = (\<lambda>e. \<lparr>props = spread e,
      dt = (case start_of fromISO e of Inl _ \<Rightarrow> None | Inr d \<Rightarrow> d)\<rparr>)"
  define P where "P = (\<lambda>e::entry. case dt e of None \<Rightarrow> False | Some t \<Rightarrow> now < t)"
  define upcoming where "upcoming = sort_key dt (filter P (map mk events))"
  have mapped: "map_entries fromISO events = Inr (map mk events)"
    unfolding mk_def by (rule map_entries_ok [OF ok])
  have res: "getNextEvent fromISO now events =
      Inr (case upcoming of [] \<Rightarrow> None | e # _ \<Rightarrow> Some e)"
    by (simp add: getNextEvent_def mapped upcoming_def P_def)
  have keep: "mk e \<in> set (filter P (map mk events))"
    if "e \<in> set events" "start_of fromISO e = Inr (Some t)" "now < t" for e t
  proof -
    from that(2,3) have "P (mk e)" by (simp add: P_def mk_def)
    with that(1) show ?thesis by simp
  qed
  show ?thesis
  proof (cases upcoming)
    case Nil
    then have "filter P (map mk events) = []"
      by (metis length_0_conv length_sort upcoming_def)
    then have "\<forall>e\<in>set events. \<forall>t. start_of fromISO e = Inr (Some t) \<longrightarrow> t \<le> now"
      using keep by (metis empty_iff empty_set not_le)
    with res Nil show ?thesis by simp
  next
    case (Cons n rest)
    then have hd: "n \<in> set (filter P (map mk events))"
      and least: "\<forall>x\<in>set (filter P (map mk events)). dt n \<le> dt x"
      using sort_key_head_least [of dt "filter P (map mk events)" n rest]
      by (simp_all add: upcoming_def)
    from hd obtain e where e: "e \<in> set events" "n = mk e" and Pn: "P n" by auto
    from Pn obtain t where t: "dt n = Some t" "now < t"
      by (auto simp: P_def split: option.splits)
    from ok e(1) obtain d where d: "start_of fromISO e = Inr d" by blast
    with e(2) t(1) have "start_of fromISO e = Inr (Some t)" by (simp add: mk_def)
    with e have src: "\<exists>e\<in>set events. props n = spread e \<and> start_of fromISO e = Inr (Some t)"
      by (auto simp: mk_def)
    have least_start:
      "\<forall>e\<in>set events. \<forall>t'. start_of fromISO e = Inr (Some t') \<longrightarrow> now < t' \<longrightarrow> t \<le> t'"
    proof (intro ballI allI impI)
      fix e' t' assume a: "e' \<in> set events" "start_of fromISO e' = Inr (Some t')" "now < t'"
      from keep [OF a] least have "dt n \<le> dt (mk e')" by blast
      with t a show "t \<le> t'" by (simp add: mk_def)
    qed
    from res Cons t src least_start show ?thesis by simp
  qed
qed

text \<open>
  C3, as stated, has \<^verbatim>\<open>getNextEvent\<close> return for every list of events, and entries whose
  start does not parse never cause a failure. With the sample event followed by an entry
  \<^verbatim>\<open>null\<close>, and with the sample event followed by an event whose \<^verbatim>\<open>startISO\<close> is the object
  \<^verbatim>\<open>{"toString": 1}\<close>, the selection throws a TypeError.
\<close>

theorem getNextEvent_throws_counterexample:
  "getNextEvent sample_fromISO 1738868400000 [sample_event, JNull] = Inl TypeError \<and>
   getNextEvent sample_fromISO 1738868400000
     [sample_event, JObj [(''id'', JStr ''late''), (''startISO'', JObj [(''toString'', JNum 1)])]]
     = Inl TypeError"
  by (simp add: getNextEvent_def sample_event_def sample_fromISO_def)

text \<open>
  C3, amended. For every list of catalog entries and every instant \<open>now\<close>,
  \<^verbatim>\<open>getNextEvent\<close> throws exactly when reading or parsing the start of some entry throws
  (the entry is \<^verbatim>\<open>null\<close>, or the date parser throws on its \<^verbatim>\<open>startISO\<close>). When it does for
  no entry, \<^verbatim>\<open>getNextEvent\<close> returns: none exactly when no entry has a valid start after
  \<open>now\<close>, and otherwise the copy of an entry of the list whose start is valid, after \<open>now\<close>,
  and the least of the valid starts after \<open>now\<close>. Entries whose start is invalid (the
  property is missing or is not a date) are never returned.
\<close>

theorem getNextEvent_earliest:
  "((\<exists>err. getNextEvent fromISO now events = Inl err) \<longleftrightarrow>
      (\<exists>e\<in>set events. \<exists>err. start_of fromISO e = Inl err)) \<and>
   ((\<forall>e\<in>set events. \<exists>d. start_of fromISO e = Inr d) \<longrightarrow>
      (\<exists>r. getNextEvent fromISO now events = Inr r \<and>
        (case r of
           None \<Rightarrow> \<forall>e\<in>set events. \<forall>t. start_of fromISO e = Inr (Some t) \<longrightarrow> t \<le> now
         | Some n \<Rightarrow> \<exists>t. dt n = Some t \<and> now < t \<and>
              (\<exists>e\<in>set events. props n = spread e \<and> start_of fromISO e = Inr (Some t)) \<and>
              (\<forall>e\<in>set events. \<forall>t'. start_of fromISO e = Inr (Some t') \<longrightarrow> now < t' \<longrightarrow>
                  t \<le> t'))))"
  using getNextEvent_throws_iff [of fromISO now events]
    getNextEvent_selects [of events fromISO now] by blast

theorem getNextEvent_earliest_witness:
  "map (start_of sample_fromISO)
     [JObj [(''startISO'', JStr ''2025-02-21T20:00'')], JStr ''zz'',
      JObj [(''startISO'', JStr ''2025-02-07T14:00'')], JObj [(''startISO'', JStr ''tba'')]]
     = [Inr (Some 1740186000000), Inr None, Inr (Some 1738954800000), Inr None] \<and>
   getNextEvent sample_fromISO 1738868400000
     [JObj [(''startISO'', JStr ''2025-02-21T20:00'')], JStr ''zz'',
      JObj [(''startISO'', JStr ''2025-02-07T14:00'')], JObj [(''startISO'', JStr ''tba'')]]
     = Inr (Some \<lparr>props = [(''startISO'', JStr ''2025-02-07T14:00'')],
                   dt = Some 1738954800000\<rparr>) \<and>
   getNextEvent sample_fromISO 1740186000000
     [JObj [(''startISO'', JStr ''2025-02-21T20:00'')], JStr ''zz'',
      JObj [(''startISO'', JStr ''2025-02-07T14:00'')], JObj [(''startISO'', JStr ''tba'')]]
     = Inr None"
  using getNextEvent_earliest
    [of sample_fromISO 1738868400000
        "[JObj [(''startISO'', JStr ''2025-02-21T20:00'')], JStr ''zz'',
          JObj [(''startISO'', JStr ''2025-02-07T14:00'')], JObj [(''startISO'', JStr ''tba'')]]"]
  by (simp add: getNextEvent_def sample_fromISO_def start_of_def)

text \<open>The start that \<^verbatim>\<open>runReminderCheck\<close> parses again is the one the selection parsed.\<close>

lemma decimal_last: "last (decimal n) \<in> set ''0123456789''"
proof (cases "n < 10")
  case True
  then have "decimal n = [''0123456789'' ! n]" by (subst decimal.simps) simp
  moreover from True have "''0123456789'' ! n \<in> set ''0123456789''"
    by (intro nth_mem) simp
  ultimately show ?thesis by simp
next
  case False
  then have "decimal n = decimal (n div 10) @ [''0123456789'' ! (n mod 10)]"
    by (subst decimal.simps) simp
  moreover have "''0123456789'' ! (n mod 10) \<in> set ''0123456789''"
    by (intro nth_mem) simp
  ultimately show ?thesis by simp
qed

lemma decimal_not_startISO: "decimal n \<noteq> ''startISO''"
proof
  assume "decimal n = ''startISO''"
  with decimal_last [of n] show False by simp
qed

lemma map_of_indices:
  "map_of (zip (map decimal [0..<k]) xs) ''startISO'' = None"
proof -
  have "''startISO'' \<notin> set (map decimal [0..<k])"
  proof
    assume "''startISO'' \<in> set (map decimal [0..<k])"
    then obtain i where "decimal i = ''startISO''" by auto
    with decimal_not_startISO show False by blast
  qed
  then have "''startISO'' \<notin> fst ` set (zip (map decimal [0..<k]) xs)"
    by (auto dest: set_zip_leftD)
  then show ?thesis by (simp add: map_of_eq_None_iff)
qed

lemma spread_startISO:
  "getProp e ''startISO'' = Inr s \<Longrightarrow> map_of (spread e) ''startISO'' = s"
  by (cases e) (auto simp: map_of_indices)

lemma map_entries_starts:
  "map_entries fromISO events = Inr mapped \<Longrightarrow>
   \<forall>n\<in>set mapped. fromISO (map_of (props n) ''startISO'') = Inr (dt n)"
proof (induction events arbitrary: mapped)
  case Nil
  then show ?case by simp
next
  case (Cons e es)
  from Cons.prems obtain s d rest where
    s: "getProp e ''startISO'' = Inr s" and d: "fromISO s = Inr d"
    and rest: "map_entries fromISO es = Inr rest"
    and mapped: "mapped = \<lparr>props = spread e, dt = d\<rparr> # rest"
    by (auto split: sum.splits)
  from Cons.IH [OF rest] spread_startISO [OF s] d mapped show ?case by simp
qed

lemma selected_start:
  assumes "getNextEvent fromISO now events = Inr (Some n)"
  shows "fromISO (map_of (props n) ''startISO'') = Inr (dt n)"
proof -
  from assms obtain mapped where m: "map_entries fromISO events = Inr mapped"
    by (auto simp: getNextEvent_def split: sum.splits)
  define upcoming where "upcoming =
    sort_key dt (filter (\<lambda>e. case dt e of None \<Rightarrow> False | Some t \<Rightarrow> now < t) mapped)"
  from assms m have "(case upcoming of [] \<Rightarrow> None | e # _ \<Rightarrow> Some e) = Some n"
    by (simp add: getNextEvent_def upcoming_def)
  then have "n \<in> set upcoming" by (cases upcoming) auto
  then have "n \<in> set mapped" by (simp add: upcoming_def)
  with map_entries_starts [OF m] show ?thesis by blast
qed


section \<open>One tick of the reminder engine\<close>

lemma announced_dm_loop [simp]: "announced (dm_loop t w n i ids) = []"
  by (induction ids arbitrary: i) simp_all

lemma dm_loop_keys:
  "a \<in> set (dm_loop t w n i ids) \<Longrightarrow>
   reminder_key a = None \<or> reminder_key a = Some (key_of n w)"
  by (induction ids arbitrary: i) (auto split: if_splits)

lemma tick_not_reached:
  assumes "\<not> (\<exists>n. reaches fromISO ch t n)"
  shows "fired (runReminderCheck fromISO ch t st) = st \<and>
         files_after (runReminderCheck fromISO ch t st) = files t \<and>
         sent (runReminderCheck fromISO ch t st) = []"
proof (cases "getNextEvent fromISO (now_select t) (readEvents (files t))")
  case (Inl err)
  then show ?thesis by (simp add: runReminderCheck_def)
next
  case (Inr found)
  show ?thesis
  proof (cases found)
    case None
    with Inr show ?thesis by (simp add: runReminderCheck_def)
  next
    case (Some n)
    with Inr assms have "ch = None \<or> ch = Some [] \<or> \<not> channel_found t"
      by (auto simp: reaches_def)
    with Inr Some show ?thesis by (auto simp: runReminderCheck_def Let_def)
  qed
qed

lemma reaches_start:
  assumes "reaches fromISO ch t n"
  shows "fromISO (map_of (props n) ''startISO'') = Inr (dt n)"
  using assms selected_start [of fromISO "now_select t" "readEvents (files t)" n]
  by (simp add: reaches_def)

lemma due_reached:
  assumes "reaches fromISO ch t n"
  shows "due fromISO t n \<longleftrightarrow> shouldTrigger (minutesUntil (dt n) (now_check t)) window24h"
  by (simp add: due_def reaches_start [OF assms])

lemma tick_idle:
  assumes "reaches fromISO ch t n" and "\<not> (due fromISO t n \<and> key_of n window24h \<notin> st)"
  shows "runReminderCheck fromISO ch t st =
         \<lparr>fired = st, files_after = files t, sent = [], thrown = None\<rparr>"
  using assms(2) reaches_start [OF assms(1)] assms(1)
  by (auto simp: reaches_def due_def runReminderCheck_def Let_def)

lemma tick_announce_fails:
  assumes "reaches fromISO ch t n" and "due fromISO t n" and "key_of n window24h \<notin> st"
    and "\<not> announce_ok t"
  shows "runReminderCheck fromISO ch t st =
         \<lparr>fired = insert (key_of n window24h) st, files_after = files t,
          sent = [ChannelSend window24h n False], thrown = Some DeliveryError\<rparr>"
  using assms(2-) reaches_start [OF assms(1)] assms(1)
  by (auto simp: reaches_def due_def runReminderCheck_def Let_def)

lemma tick_store_fails:
  assumes "reaches fromISO ch t n" and "due fromISO t n" and "key_of n window24h \<notin> st"
    and "announce_ok t" and "readOptins (files t) = Inl err"
  shows "runReminderCheck fromISO ch t st =
         \<lparr>fired = insert (key_of n window24h) st, files_after = files t,
          sent = [ChannelSend window24h n True], thrown = Some err\<rparr>"
  using assms(2-) reaches_start [OF assms(1)] assms(1)
  by (auto simp: reaches_def due_def runReminderCheck_def Let_def)

lemma tick_optins_unreadable:
  assumes "reaches fromISO ch t n" and "due fromISO t n" and "key_of n window24h \<notin> st"
    and "announce_ok t" and "readOptins (files t) = Inr (ensured, optins)"
    and "optedIn optins = Inl err"
  shows "runReminderCheck fromISO ch t st =
         \<lparr>fired = insert (key_of n window24h) st, files_after = ensured,
          sent = [ChannelSend window24h n True], thrown = Some err\<rparr>"
  using assms(2-) reaches_start [OF assms(1)] assms(1)
  by (auto simp: reaches_def due_def runReminderCheck_def Let_def)

lemma tick_dispatch:
  assumes "reaches fromISO ch t n" and "due fromISO t n" and "key_of n window24h \<notin> st"
    and "announce_ok t" and "readOptins (files t) = Inr (ensured, optins)"
    and "optedIn optins = Inr ids"
  shows "runReminderCheck fromISO ch t st =
         \<lparr>fired = insert (key_of n window24h) st, files_after = ensured,
          sent = ChannelSend window24h n True # dm_loop t window24h n 0 ids, thrown = None\<rparr>"
  using assms(2-) reaches_start [OF assms(1)] assms(1)
  by (auto simp: reaches_def due_def runReminderCheck_def Let_def)

lemma tick_cases:
  obtains (idle)
      "fired (runReminderCheck fromISO ch t st) = st"
      "files_after (runReminderCheck fromISO ch t st) = files t"
      "sent (runReminderCheck fromISO ch t st) = []"
  | (fires) n more where
      "reaches fromISO ch t n" "due fromISO t n" "key_of n window24h \<notin> st"
      "fired (runReminderCheck fromISO ch t st) = insert (key_of n window24h) st"
      "sent (runReminderCheck fromISO ch t st) = ChannelSend window24h n (announce_ok t) # more"
      "\<forall>a\<in>set more. reminder_key a = None \<or> reminder_key a = Some (key_of n window24h)"
      "announced more = []"
proof (cases "\<exists>n. reaches fromISO ch t n")
  case False
  from tick_not_reached [OF this, of st] show ?thesis by (intro idle) simp_all
next
  case True
  then obtain n where n: "reaches fromISO ch t n" by blast
  show ?thesis
  proof (cases "due fromISO t n \<and> key_of n window24h \<notin> st")
    case False
    from tick_idle [OF n this] show ?thesis by (intro idle) simp_all
  next
    case True
    then have d: "due fromISO t n" and k: "key_of n window24h \<notin> st" by simp_all
    show ?thesis
    proof (cases "announce_ok t")
      case False
      from tick_announce_fails [OF n d k False] False
      show ?thesis by (intro fires [of n "[]"] n d k) simp_all
    next
      case ok: True
      show ?thesis
      proof (cases "readOptins (files t)")
        case (Inl err)
        from tick_store_fails [OF n d k ok Inl] ok
        show ?thesis by (intro fires [of n "[]"] n d k) simp_all
      next
        case (Inr read)
        obtain ensured optins where read: "read = (ensured, optins)" by (cases read)
        show ?thesis
        proof (cases "optedIn optins")
          case (Inl err)
          from tick_optins_unreadable [OF n d k ok Inr [unfolded read] Inl] ok
          show ?thesis by (intro fires [of n "[]"] n d k) simp_all
        next
          case ids: (Inr ids)
          from tick_dispatch [OF n d k ok Inr [unfolded read] ids] ok
          show ?thesis
            by (intro fires [of n "dm_loop t window24h n 0 ids"] n d k)
               (auto dest: dm_loop_keys)
        qed
      qed
    qed
  qed
qed

lemma tick_keys:
  assumes a: "a \<in> set (sent (runReminderCheck fromISO ch t st))"
    and key: "reminder_key a = Some k"
  shows "k \<notin> st \<and> k \<in> fired (runReminderCheck fromISO ch t st) \<and>
         announced (sent (runReminderCheck fromISO ch t st)) = [k]"
proof (cases rule: tick_cases [of fromISO ch t st])
  case idle
  with a show ?thesis by simp
next
  case (fires n more)
  from a fires(5) have "a = ChannelSend window24h n (announce_ok t) \<or> a \<in> set more" by simp
  with key fires(6) have "k = key_of n window24h" by auto
  with fires show ?thesis by simp
qed

lemma tick_announced:
  "announced (sent (runReminderCheck fromISO ch t st)) = [] \<or>
   (\<exists>k. k \<notin> st \<and> k \<in> fired (runReminderCheck fromISO ch t st) \<and>
        announced (sent (runReminderCheck fromISO ch t st)) = [k])"
proof (cases rule: tick_cases [of fromISO ch t st])
  case idle
  then show ?thesis by simp
next
  case (fires n more)
  then show ?thesis by simp
qed

lemma tick_grows: "st \<subseteq> fired (runReminderCheck fromISO ch t st)"
proof (cases rule: tick_cases [of fromISO ch t st])
  case idle
  then show ?thesis by simp
next
  case (fires n more)
  then show ?thesis by auto
qed

lemma tick_fired_stays:
  assumes "k \<in> st"
  shows "k \<in> fired (runReminderCheck fromISO ch t st) \<and>
         (\<forall>a\<in>set (sent (runReminderCheck fromISO ch t st)). reminder_key a \<noteq> Some k)"
  using assms tick_grows [of st fromISO ch t] tick_keys [of _ fromISO ch t st k] by blast

lemma cron_fired_stays:
  "k \<in> st \<Longrightarrow> \<forall>r\<in>set (cron fromISO ch st ticks).
      k \<in> fired r \<and> (\<forall>a\<in>set (sent r). reminder_key a \<noteq> Some k)"
proof (induction ticks arbitrary: st)
  case Nil
  then show ?case by simp
next
  case (Cons t ticks)
  from tick_fired_stays [OF Cons.prems, of fromISO ch t]
  have here: "k \<in> fired (runReminderCheck fromISO ch t st)"
    "\<forall>a\<in>set (sent (runReminderCheck fromISO ch t st)). reminder_key a \<noteq> Some k"
    by simp_all
  from Cons.IH [OF here(1)] here show ?case by (simp add: Let_def)
qed

lemma announced_keys:
  "k \<in> set (announced acts) \<Longrightarrow> \<exists>a\<in>set acts. reminder_key a = Some k"
  by (induction acts rule: announced.induct) auto

lemma cron_grows:
  "\<forall>r\<in>set (cron fromISO ch st ticks). st \<subseteq> fired r"
proof (induction ticks arbitrary: st)
  case Nil
  then show ?case by simp
next
  case (Cons t ticks)
  have here: "st \<subseteq> fired (runReminderCheck fromISO ch t st)" by (rule tick_grows)
  with Cons.IH [of "fired (runReminderCheck fromISO ch t st)"]
  show ?case by (auto simp: Let_def)
qed

lemma cron_count:
  "count_list (concat (map (\<lambda>r. announced (sent r)) (cron fromISO ch st ticks))) k \<le> 1"
proof (induction ticks arbitrary: st)
  case Nil
  then show ?case by simp
next
  case (Cons t ticks)
  define r where "r = runReminderCheck fromISO ch t st"
  define later where
    "later = concat (map (\<lambda>r. announced (sent r)) (cron fromISO ch (fired r) ticks))"
  have unfold: "concat (map (\<lambda>r. announced (sent r)) (cron fromISO ch st (t # ticks)))
      = announced (sent r) @ later"
    by (simp add: r_def later_def Let_def)
  have ih: "count_list later k \<le> 1"
    unfolding later_def by (rule Cons.IH)
  show ?case
  proof (cases "k \<in> set (announced (sent r))")
    case False
    then have "count_list (announced (sent r)) k = 0" by (simp add: count_list_0_iff)
    with ih unfold show ?thesis by simp
  next
    case True
    with tick_announced [of fromISO ch t st]
    have one: "announced (sent r) = [k]" and marked: "k \<in> fired r"
      by (auto simp: r_def)
    have "k \<notin> set later"
    proof
      assume "k \<in> set later"
      then obtain r' where r': "r' \<in> set (cron fromISO ch (fired r) ticks)"
        and "k \<in> set (announced (sent r'))" by (auto simp: later_def)
      then obtain a where "a \<in> set (sent r')" "reminder_key a = Some k"
        using announced_keys by blast
      with cron_fired_stays [OF marked, of fromISO ch ticks] r' show False by blast
    qed
    then have "count_list later k = 0" by (simp add: count_list_0_iff)
    with one unfold show ?thesis by simp
  qed
qed



section \<open>The sample installation, evaluated\<close>

lemma sample_events: "readEvents sample_files = [sample_event]"
  by (simp add: readEvents_def sample_files_def readFileSync_def JSON_parse_def)

lemma sample_next:
  "now < 1738954800000 \<Longrightarrow>
   getNextEvent sample_fromISO now [sample_event] = Inr (Some sample_entry)"
  by (simp add: getNextEvent_def sample_event_def sample_fromISO_def sample_entry_def)

lemma sample_key: "key_of sample_entry window24h = ''foss:24h''"
  by (simp add: key_of_def sample_entry_def template_def window24h_def)

lemma sample_reaches:
  "now_select t < 1738954800000 \<Longrightarrow> files t = sample_files \<Longrightarrow> channel_found t \<Longrightarrow>
   reaches sample_fromISO (Some ''events'') t sample_entry"
  by (simp add: reaches_def sample_events sample_next)

lemma sample_due:
  "due sample_fromISO t sample_entry \<longleftrightarrow>
     \<bar>round_minutes (1738954800000 - now_check t) - 1440\<bar> \<le> 1"
  by (simp add: due_def sample_entry_def sample_fromISO_def minutesUntil_def shouldTrigger_def
      window24h_def)

lemma sample_optins:
  "readOptins sample_files =
     Inr (sample_files, JObj [(''dmOptInUserIds'', JArr [JStr ''u1'', JStr ''u2''])])"
  by (simp add: readOptins_def ensureDataFiles_def optinsPath_def sample_files_def
      readFileSync_def JSON_parse_def)

lemma sample_optedIn:
  "optedIn (JObj [(''dmOptInUserIds'', JArr [JStr ''u1'', JStr ''u2''])]) =
     Inr [JStr ''u1'', JStr ''u2'']"
  by (simp add: optedIn_def or_empty_def)


lemma sample_outcome:
  "runReminderCheck sample_fromISO (Some ''events'') sample_tick {} =
     \<lparr>fired = {''foss:24h''}, files_after = sample_files,
      sent = [ChannelSend window24h sample_entry True,
              UsersFetch (JStr ''u1'') True, UserSend (JStr ''u1'') window24h sample_entry False,
              UsersFetch (JStr ''u2'') True, UserSend (JStr ''u2'') window24h sample_entry True],
      thrown = None\<rparr>"
proof -
  have r: "reaches sample_fromISO (Some ''events'') sample_tick sample_entry"
    by (rule sample_reaches) (simp_all add: sample_tick_def)
  have d: "due sample_fromISO sample_tick sample_entry"
    by (simp add: sample_due sample_tick_def round_minutes_def)
  have k: "key_of sample_entry window24h \<notin> {}" by simp
  have ok: "announce_ok sample_tick" by (simp add: sample_tick_def)
  have f: "readOptins (files sample_tick) =
      Inr (sample_files, JObj [(''dmOptInUserIds'', JArr [JStr ''u1'', JStr ''u2''])])"
    by (simp add: sample_tick_def sample_optins)
  have l: "dm_loop sample_tick window24h sample_entry 0 [JStr ''u1'', JStr ''u2''] =
     [UsersFetch (JStr ''u1'') True, UserSend (JStr ''u1'') window24h sample_entry False,
      UsersFetch (JStr ''u2'') True, UserSend (JStr ''u2'') window24h sample_entry True]"
    by (simp add: sample_tick_def)
  show ?thesis
    unfolding tick_dispatch [OF r d k ok f sample_optedIn] l by (simp add: sample_key)
qed

lemma sample_idle_when_fired:
  "runReminderCheck sample_fromISO (Some ''events'') sample_tick {''foss:24h''} =
     \<lparr>fired = {''foss:24h''}, files_after = sample_files, sent = [], thrown = None\<rparr>"
proof -
  have r: "reaches sample_fromISO (Some ''events'') sample_tick sample_entry"
    by (rule sample_reaches) (simp_all add: sample_tick_def)
  have "\<not> (due sample_fromISO sample_tick sample_entry \<and>
            key_of sample_entry window24h \<notin> {''foss:24h''})"
    by (simp add: sample_key)
  from tick_idle [OF r this] show ?thesis by (simp add: sample_tick_def)
qed

section \<open>At most one dispatch per reminder\<close>

text \<open>
  C1. Take any reminder key \<open>k\<close> (an event identifier and a threshold label), any
  starting \<^verbatim>\<open>reminderState\<close> and any sequence of ticks, whatever their inputs. Over the
  whole run the channel announcement for \<open>k\<close> is made at most once. If \<open>k\<close> is already
  marked fired, no tick of the run makes any call (announcement or direct message) for
  \<open>k\<close>. And a tick that makes a call for \<open>k\<close> started with \<open>k\<close> unmarked and ends with
  \<open>k\<close> marked.
\<close>

theorem fires_at_most_once:
  "count_list (concat (map (\<lambda>r. announced (sent r)) (cron fromISO ch st ticks))) k \<le> 1 \<and>
   (k \<in> st \<longrightarrow>
      (\<forall>r\<in>set (cron fromISO ch st ticks). \<forall>a\<in>set (sent r). reminder_key a \<noteq> Some k)) \<and>
   ((\<exists>a\<in>set (sent (runReminderCheck fromISO ch t st)). reminder_key a = Some k) \<longrightarrow>
      k \<notin> st \<and> k \<in> fired (runReminderCheck fromISO ch t st))"
proof (intro conjI impI)
  show "count_list (concat (map (\<lambda>r. announced (sent r)) (cron fromISO ch st ticks))) k \<le> 1"
    by (rule cron_count)
next
  assume "k \<in> st"
  from cron_fired_stays [OF this, of fromISO ch ticks]
  show "\<forall>r\<in>set (cron fromISO ch st ticks). \<forall>a\<in>set (sent r). reminder_key a \<noteq> Some k"
    by blast
next
  assume "\<exists>a\<in>set (sent (runReminderCheck fromISO ch t st)). reminder_key a = Some k"
  then obtain a where "a \<in> set (sent (runReminderCheck fromISO ch t st))"
    "reminder_key a = Some k" by blast
  from tick_keys [OF this]
  show "k \<notin> st" and "k \<in> fired (runReminderCheck fromISO ch t st)" by simp_all
qed


theorem fires_at_most_once_witness:
  "''foss:24h'' \<in> {''foss:24h''} \<and>
   map (\<lambda>r. map reminder_key (sent r))
     (cron sample_fromISO (Some ''events'') {''foss:24h''} [sample_tick]) = [[]] \<and>
   map reminder_key (sent (runReminderCheck sample_fromISO (Some ''events'') sample_tick {})) =
     [Some ''foss:24h'', None, Some ''foss:24h'', None, Some ''foss:24h''] \<and>
   ''foss:24h'' \<notin> {} \<and>
   ''foss:24h'' \<in> fired (runReminderCheck sample_fromISO (Some ''events'') sample_tick {})"
  using fires_at_most_once [of sample_fromISO "Some ''events''" "{''foss:24h''}" "[sample_tick]"
      "''foss:24h''" sample_tick]
    fires_at_most_once [of sample_fromISO "Some ''events''" "{}" "[]" "''foss:24h''" sample_tick]
  by (simp add: sample_outcome sample_idle_when_fired sample_key)

section \<open>The threshold check\<close>








section \<open>The fired markers\<close>

text \<open>
  C4. A reminder key is either in \<^verbatim>\<open>reminderState\<close> (fired) or not (pending). A tick keeps
  every key that is in the set; it either leaves the set as it is or adds the one key of
  the next event, and it adds it only when the threshold check of that tick succeeds. Over
  any sequence of ticks the set never loses a key. (\<^verbatim>\<open>runReminderCheck\<close> is the only code
  that touches the set: the command handlers \<open>remindme\<close> and \<open>remindoff\<close> work on the files
  only.)
\<close>

theorem markers_monotone:
  "st \<subseteq> fired (runReminderCheck fromISO ch t st) \<and>
   (fired (runReminderCheck fromISO ch t st) = st \<or>
    (\<exists>n. reaches fromISO ch t n \<and> due fromISO t n \<and> key_of n window24h \<notin> st \<and>
         fired (runReminderCheck fromISO ch t st) = insert (key_of n window24h) st)) \<and>
   (\<forall>r\<in>set (cron fromISO ch st ticks). st \<subseteq> fired r)"
proof (intro conjI)
  show "st \<subseteq> fired (runReminderCheck fromISO ch t st)" by (rule tick_grows)
  show "fired (runReminderCheck fromISO ch t st) = st \<or>
    (\<exists>n. reaches fromISO ch t n \<and> due fromISO t n \<and> key_of n window24h \<notin> st \<and>
         fired (runReminderCheck fromISO ch t st) = insert (key_of n window24h) st)"
  proof (cases rule: tick_cases [of fromISO ch t st])
    case idle
    then show ?thesis by simp
  next
    case (fires n more)
    then show ?thesis by blast
  qed
  show "\<forall>r\<in>set (cron fromISO ch st ticks). st \<subseteq> fired r" by (rule cron_grows)
qed

theorem markers_monotone_witness:
  "fired (runReminderCheck sample_fromISO (Some ''events'') sample_tick {}) = {''foss:24h''} \<and>
   map fired (cron sample_fromISO (Some ''events'') {} [sample_tick, sample_tick]) =
     [{''foss:24h''}, {''foss:24h''}]"
  using markers_monotone [of "{}" sample_fromISO "Some ''events''" sample_tick
      "[sample_tick, sample_tick]"]
  by (simp add: sample_outcome sample_idle_when_fired)






section \<open>Direct messages\<close>

lemma attempted_dm_loop [simp]: "attempted (dm_loop t w n i ids) = ids"
  by (induction ids arbitrary: i) simp_all





section \<open>Reading the catalog\<close>

lemma no_events_idle:
  assumes "readEvents (files t) = []"
  shows "runReminderCheck fromISO ch t st =
           \<lparr>fired = st, files_after = files t, sent = [], thrown = None\<rparr>"
  using assms by (simp add: runReminderCheck_def getNextEvent_def)

lemma no_events_cron:
  "\<forall>t\<in>set ts. readEvents (files t) = [] \<Longrightarrow>
   cron fromISO ch st ts =
     map (\<lambda>t. \<lparr>fired = st, files_after = files t, sent = [], thrown = None\<rparr>) ts"
  by (induction ts) (simp_all add: no_events_idle)

text \<open>
  C8. \<^verbatim>\<open>readEvents\<close> returns the empty list when the catalog file cannot be read, when it
  is not valid JSON, and when the \<^verbatim>\<open>events\<close> property of the document is not an array
  (this includes the document \<^verbatim>\<open>null\<close>, on which reading the property throws); it returns
  the array otherwise. On ticks that find no events the scheduler does nothing: each tick
  ends without an error, with the fired markers and the files as they were and no call made.
\<close>

theorem readEvents_never_fails:
  "(eventsFile fl = None \<longrightarrow> readEvents fl = []) \<and>
   (eventsFile fl = Some Malformed \<longrightarrow> readEvents fl = []) \<and>
   (eventsFile fl = Some (Json doc) \<and> (\<forall>xs. getProp doc ''events'' \<noteq> Inr (Some (JArr xs))) \<longrightarrow>
      readEvents fl = []) \<and>
   (eventsFile fl = Some (Json doc) \<and> getProp doc ''events'' = Inr (Some (JArr xs)) \<longrightarrow>
      readEvents fl = xs) \<and>
   ((\<forall>t\<in>set ts. readEvents (files t) = []) \<longrightarrow>
      cron fromISO ch st ts =
        map (\<lambda>t. \<lparr>fired = st, files_after = files t, sent = [], thrown = None\<rparr>) ts)"
proof (intro conjI impI)
  assume "eventsFile fl = None"
  then show "readEvents fl = []" by (simp add: readEvents_def readFileSync_def)
next
  assume "eventsFile fl = Some Malformed"
  then show "readEvents fl = []" by (simp add: readEvents_def readFileSync_def JSON_parse_def)
next
  assume "eventsFile fl = Some (Json doc) \<and> (\<forall>xs. getProp doc ''events'' \<noteq> Inr (Some (JArr xs)))"
  then show "readEvents fl = []"
    by (auto simp: readEvents_def readFileSync_def JSON_parse_def
        split: sum.splits option.splits json.splits)
next
  assume "eventsFile fl = Some (Json doc) \<and> getProp doc ''events'' = Inr (Some (JArr xs))"
  then show "readEvents fl = xs" by (simp add: readEvents_def readFileSync_def JSON_parse_def)
next
  assume "\<forall>t\<in>set ts. readEvents (files t) = []"
  then show "cron fromISO ch st ts =
        map (\<lambda>t. \<lparr>fired = st, files_after = files t, sent = [], thrown = None\<rparr>) ts"
    by (rule no_events_cron)
qed


theorem readEvents_never_fails_witness:
  "readEvents (sample_files\<lparr>eventsFile := None\<rparr>) = [] \<and>
   readEvents (sample_files\<lparr>eventsFile := Some Malformed\<rparr>) = [] \<and>
   readEvents (sample_files\<lparr>eventsFile := Some (Json (JObj [(''events'', JStr ''soon'')]))\<rparr>) = [] \<and>
   readEvents (sample_files\<lparr>eventsFile := Some (Json JNull)\<rparr>) = [] \<and>
   readEvents (sample_files\<lparr>eventsFile := Some (Json (JObj [(''events'', JArr [JNum 1])]))\<rparr>)
     = [JNum 1] \<and>
   cron sample_fromISO (Some ''events'') {}
       [sample_tick\<lparr>files := sample_files\<lparr>eventsFile := None\<rparr>\<rparr>] =
     [\<lparr>fired = {}, files_after = sample_files\<lparr>eventsFile := None\<rparr>, sent = [],
       thrown = None\<rparr>]"
  using readEvents_never_fails [where fl = "sample_files\<lparr>eventsFile := None\<rparr>"
      and ts = "[sample_tick\<lparr>files := sample_files\<lparr>eventsFile := None\<rparr>\<rparr>]"
      and fromISO = sample_fromISO and ch = "Some ''events''" and st = "{}"]
    readEvents_never_fails [where fl = "sample_files\<lparr>eventsFile := Some Malformed\<rparr>" and ts = "[]"]
    readEvents_never_fails
      [where fl = "sample_files\<lparr>eventsFile := Some (Json (JObj [(''events'', JStr ''soon'')]))\<rparr>"
       and doc = "JObj [(''events'', JStr ''soon'')]" and ts = "[]"]
    readEvents_never_fails
      [where fl = "sample_files\<lparr>eventsFile := Some (Json JNull)\<rparr>" and doc = JNull and ts = "[]"]
    readEvents_never_fails
      [where fl = "sample_files\<lparr>eventsFile := Some (Json (JObj [(''events'', JArr [JNum 1])]))\<rparr>"
       and doc = "JObj [(''events'', JArr [JNum 1])]" and xs = "[JNum 1]" and ts = "[]"]
  by simp



section \<open>No channel configured\<close>






section \<open>Listing the opted-in users\<close>

lemma ensure_existing:
  "optinsPath fl \<noteq> None \<Longrightarrow> ensureDataFiles fl = Inr fl"
  by (auto simp: ensureDataFiles_def optinsPath_def split: if_splits)

lemma ensure_missing:
  assumes "optinsPath fl = None"
  shows "ensureDataFiles fl =
           (if dataDir fl = Plain then Inl ENOTDIR
            else if refuses_writes fl then Inl EACCES
            else Inr (fl\<lparr>dataDir := Dir, optinsFile := Some (Json default_optins)\<rparr>))"
  using assms
  by (cases fl; cases "dataDir fl")
     (auto simp: ensureDataFiles_def optinsPath_def mkdirSync_def writeFileSync_def)

lemma read_existing:
  assumes "optinsPath fl = Some c"
  shows "readOptins fl = Inr (fl, case c of Malformed \<Rightarrow> default_optins | Json doc \<Rightarrow> doc)"
  using assms ensure_existing [of fl]
  by (cases c) (simp_all add: readOptins_def readFileSync_def JSON_parse_def)

lemma read_missing:
  assumes "optinsPath fl = None" and "dataDir fl \<noteq> Plain" and "\<not> refuses_writes fl"
  shows "readOptins fl =
           Inr (fl\<lparr>dataDir := Dir, optinsFile := Some (Json default_optins)\<rparr>, default_optins)"
  using assms ensure_missing [OF assms(1)]
  by (simp add: readOptins_def optinsPath_def readFileSync_def JSON_parse_def)

lemma optedIn_default: "optedIn default_optins = Inr []"
  by (simp add: optedIn_def default_optins_def or_empty_def)

text \<open>
  C7, as stated, has the listing never raise. With nothing at \<^verbatim>\<open>OPTINS_PATH\<close> because
  \<^verbatim>\<open>DATA_DIR\<close> is a plain file, the write in \<^verbatim>\<open>ensureDataFiles\<close> throws and the listing
  throws with it; and with the stored document \<^verbatim>\<open>null\<close>, reading the list off the document
  throws.
\<close>

theorem listOptedIn_raises_counterexample:
  "optinsPath (sample_files\<lparr>dataDir := Plain\<rparr>) = None \<and>
   readOptins (sample_files\<lparr>dataDir := Plain\<rparr>) = Inl ENOTDIR \<and>
   listOptedIn (sample_files\<lparr>dataDir := Plain\<rparr>) = Inl ENOTDIR \<and>
   listOptedIn (sample_files\<lparr>optinsFile := Some (Json JNull)\<rparr>) = Inl TypeError"
  by (simp add: listOptedIn_def readOptins_def ensureDataFiles_def optinsPath_def
      writeFileSync_def readFileSync_def JSON_parse_def optedIn_def sample_files_def)

text \<open>
  C7, amended. When the opt-in store is missing and can be created (\<^verbatim>\<open>DATA_DIR\<close> is not a
  plain file and the file system takes the write), the listing creates it with the empty
  list and returns no users. When the store is missing and cannot be created, the listing
  throws. When the stored text does not parse, the listing returns no users and leaves the
  files as they are. When it parses, \<^verbatim>\<open>readOptins\<close> returns the document and the listing
  returns the list read off it, or throws what reading it off throws.
\<close>

theorem listOptedIn_degrades:
  "(optinsPath fl = None \<and> dataDir fl \<noteq> Plain \<and> \<not> refuses_writes fl \<longrightarrow>
      listOptedIn fl =
        Inr (fl\<lparr>dataDir := Dir, optinsFile := Some (Json default_optins)\<rparr>, [])) \<and>
   (optinsPath fl = None \<and> (dataDir fl = Plain \<or> refuses_writes fl) \<longrightarrow>
      (\<exists>err. readOptins fl = Inl err \<and> listOptedIn fl = Inl err)) \<and>
   (optinsPath fl = Some Malformed \<longrightarrow> listOptedIn fl = Inr (fl, [])) \<and>
   (optinsPath fl = Some (Json doc) \<longrightarrow>
      readOptins fl = Inr (fl, doc) \<and>
      listOptedIn fl =
        (case optedIn doc of Inl err \<Rightarrow> Inl err | Inr ids \<Rightarrow> Inr (fl, ids)))"
proof (intro conjI impI)
  assume "optinsPath fl = None \<and> dataDir fl \<noteq> Plain \<and> \<not> refuses_writes fl"
  then show "listOptedIn fl =
        Inr (fl\<lparr>dataDir := Dir, optinsFile := Some (Json default_optins)\<rparr>, [])"
    by (simp add: listOptedIn_def read_missing optedIn_default)
next
  assume a: "optinsPath fl = None \<and> (dataDir fl = Plain \<or> refuses_writes fl)"
  then have "\<exists>err. ensureDataFiles fl = Inl err"
    using ensure_missing [of fl] by auto
  then show "\<exists>err. readOptins fl = Inl err \<and> listOptedIn fl = Inl err"
    by (auto simp: readOptins_def listOptedIn_def)
next
  assume "optinsPath fl = Some Malformed"
  from read_existing [OF this] show "listOptedIn fl = Inr (fl, [])"
    by (simp add: listOptedIn_def optedIn_default)
next
  assume a: "optinsPath fl = Some (Json doc)"
  from read_existing [OF a] show "readOptins fl = Inr (fl, doc)" by simp
  from read_existing [OF a] show "listOptedIn fl =
        (case optedIn doc of Inl err \<Rightarrow> Inl err | Inr ids \<Rightarrow> Inr (fl, ids))"
    by (simp add: listOptedIn_def split: sum.splits)
qed

theorem listOptedIn_degrades_witness:
  "listOptedIn (sample_files\<lparr>dataDir := Absent\<rparr>) =
     Inr (sample_files\<lparr>optinsFile := Some (Json (JObj [(''dmOptInUserIds'', JArr [])]))\<rparr>, []) \<and>
   listOptedIn (sample_files\<lparr>optinsFile := None, refuses_writes := True\<rparr>) = Inl EACCES \<and>
   listOptedIn (sample_files\<lparr>optinsFile := Some Malformed, refuses_writes := True\<rparr>) =
     Inr (sample_files\<lparr>optinsFile := Some Malformed, refuses_writes := True\<rparr>, []) \<and>
   listOptedIn sample_files = Inr (sample_files, [JStr ''u1'', JStr ''u2''])"
proof -
  have a: "listOptedIn (sample_files\<lparr>dataDir := Absent\<rparr>) =
     Inr (sample_files\<lparr>optinsFile := Some (Json (JObj [(''dmOptInUserIds'', JArr [])]))\<rparr>, [])"
    using listOptedIn_degrades [of "sample_files\<lparr>dataDir := Absent\<rparr>"]
    by (simp add: optinsPath_def default_optins_def sample_files_def)
  have "\<exists>err. readOptins (sample_files\<lparr>optinsFile := None, refuses_writes := True\<rparr>) = Inl err \<and>
      listOptedIn (sample_files\<lparr>optinsFile := None, refuses_writes := True\<rparr>) = Inl err"
    using listOptedIn_degrades [of "sample_files\<lparr>optinsFile := None, refuses_writes := True\<rparr>"]
    by (simp add: optinsPath_def)
  moreover have "readOptins (sample_files\<lparr>optinsFile := None, refuses_writes := True\<rparr>) = Inl EACCES"
    by (simp add: readOptins_def ensureDataFiles_def optinsPath_def writeFileSync_def
        sample_files_def)
  ultimately have b: "listOptedIn (sample_files\<lparr>optinsFile := None, refuses_writes := True\<rparr>) =
      Inl EACCES" by auto
  have c: "listOptedIn (sample_files\<lparr>optinsFile := Some Malformed, refuses_writes := True\<rparr>) =
     Inr (sample_files\<lparr>optinsFile := Some Malformed, refuses_writes := True\<rparr>, [])"
    using listOptedIn_degrades
      [of "sample_files\<lparr>optinsFile := Some Malformed, refuses_writes := True\<rparr>"]
    by (simp add: optinsPath_def sample_files_def)
  have d: "listOptedIn sample_files = Inr (sample_files, [JStr ''u1'', JStr ''u2''])"
    using listOptedIn_degrades
      [of sample_files "JObj [(''dmOptInUserIds'', JArr [JStr ''u1'', JStr ''u2''])]"]
    by (simp add: optinsPath_def sample_files_def sample_optedIn)
  from a b c d show ?thesis by simp
qed


section \<open>Opting in and out\<close>











lemma handler_remindoff:
  assumes "isChatInputCommand i" and "commandName i = ''remindoff''"
    and "getNextEvent fromISO (asked_at i) (readEvents (found i)) = Inr sel"
    and "readOptins (found i) = Inr (ensured, optins)"
    and "getProp optins ''dmOptInUserIds'' = Inr v"
    and "array_filter (\<lambda>id. id \<noteq> JStr (user_id i)) (or_empty v) = Inr kept"
    and "writeOptins (setProp optins ''dmOptInUserIds'' (JArr kept)) ensured = Inr written"
  shows "interactionCreate fromISO i = reply_with i written OptedOut"
  using assms by (simp add: interactionCreate_def)


lemma handler_prefix_throws:
  assumes "isChatInputCommand i"
    and "getNextEvent fromISO (asked_at i) (readEvents (found i)) = Inl err"
  shows "interactionCreate fromISO i =
           \<lparr>files_left = found i, replied = None, failed = Some err\<rparr>"
  using assms by (simp add: interactionCreate_def)






lemma sample_selects:
  "getNextEvent sample_fromISO 1738868400000 (readEvents sample_files) =
     Inr (Some sample_entry)"
  by (simp add: sample_events sample_next)

lemma sample_write:
  "writeOptins d (sample_files\<lparr>optinsFile := Some c\<rparr>) =
     Inr (sample_files\<lparr>optinsFile := Some (Json d)\<rparr>)"
  by (simp add: writeOptins_def ensureDataFiles_def optinsPath_def writeFileSync_def
      sample_files_def)

lemma sample_write_same:
  "writeOptins (JObj [(''dmOptInUserIds'', JArr [JStr ''u1'', JStr ''u2''])]) sample_files =
     Inr sample_files"
  by (simp add: writeOptins_def ensureDataFiles_def optinsPath_def writeFileSync_def
      sample_files_def)



lemma sample_remindoff_absent:
  "interactionCreate sample_fromISO (sample_command ''remindoff'') =
     \<lparr>files_left = sample_files, replied = Some OptedOut, failed = None\<rparr>"
proof -
  have g: "getProp (JObj [(''dmOptInUserIds'', JArr [JStr ''u1'', JStr ''u2''])])
      ''dmOptInUserIds'' = Inr (Some (JArr [JStr ''u1'', JStr ''u2'']))" by simp
  have f: "array_filter (\<lambda>id. id \<noteq> JStr (user_id (sample_command ''remindoff'')))
      (or_empty (Some (JArr [JStr ''u1'', JStr ''u2'']))) = Inr [JStr ''u1'', JStr ''u2'']"
    by (simp add: or_empty_def sample_command_def)
  have w: "writeOptins (setProp (JObj [(''dmOptInUserIds'', JArr [JStr ''u1'', JStr ''u2''])])
        ''dmOptInUserIds'' (JArr [JStr ''u1'', JStr ''u2''])) sample_files = Inr sample_files"
    by (simp add: sample_write_same)
  have "interactionCreate sample_fromISO (sample_command ''remindoff'') =
      reply_with (sample_command ''remindoff'') sample_files OptedOut"
    by (rule handler_remindoff [OF _ _ _ _ g f w])
       (simp_all add: sample_command_def sample_selects sample_optins)
  then show ?thesis by (simp add: reply_with_def sample_command_def)
qed







end
